theory Spec2Isabelle
  imports Main "HOL-Library.Word"
begin

unbundle bit_operations_syntax

section \<open>SevSeg_MAX7219: a seven-segment driver for the MAX7219\<close>

text \<open>
  A shallow embedding of \<^verbatim>\<open>SevSeg_MAX7219.cpp\<close> and \<^verbatim>\<open>SevSeg_MAX7219.h\<close>.

  \<^item> \<^verbatim>\<open>byte\<close> (\<^verbatim>\<open>uint8_t\<close>) and \<^verbatim>\<open>char\<close> are 8-bit words. Where the source
    reads a \<^verbatim>\<open>char\<close> as a number (a comparison, an array index) the model uses
    \<open>sint\<close>: \<^verbatim>\<open>char\<close> is signed on the AVR targets of the library. With an
    unsigned \<^verbatim>\<open>char\<close> every value that is negative here is at least 128 there,
    so the same range checks fail and the same accesses are out of range.
  \<^item> \<^verbatim>\<open>int\<close> locals are modelled as unbounded \<open>int\<close> or \<open>nat\<close>: the loop
    counters stay below 256 + 16, and the only other value, \<^verbatim>\<open>strlen(text)\<close>, is
    assumed to fit an \<^verbatim>\<open>int\<close>.
  \<^item> An object of the class is a record of its members, extended by \<open>spi\<close>, the
    sequence of register writes sent so far (oldest first).
  \<^item> An access outside an array is undefined behaviour in the source; the model
    returns a \<open>fault\<close> that names the array and the index.
  \<^item> A local that the source reads without having initialised it holds whatever was
    in its storage; that stale content is a parameter of the model.
\<close>

type_synonym byte = "8 word"
type_synonym cchar = "8 word"

subsection \<open>The object and the serial line\<close>

record SevSeg =
  dinPin :: byte
  clkPin :: byte
  csPin :: byte
  digits :: byte
  pos :: byte
  autoscrolling :: bool
  justify :: bool
  buf :: "cchar list"
  spi :: "(byte \<times> byte) list"

datatype fault = BufIndex int | DecimalIndex int | TrimStrIndex int

text \<open>
  \<^verbatim>\<open>writeSPI(opcode, data)\<close> frames two bytes between chip-select low and high and shifts
  them out most significant bit first. The model records the frame as the pair
  \<open>(opcode, data)\<close> appended to \<open>spi\<close>.
\<close>

definition writeSPI :: "byte \<Rightarrow> byte \<Rightarrow> SevSeg \<Rightarrow> SevSeg" where
  "writeSPI opcode data s = s\<lparr>spi := spi s @ [(opcode, data)]\<rparr>"

definition MAX7219_REG_DECODE :: byte where "MAX7219_REG_DECODE = 0x09"
definition MAX7219_REG_INTENSITY :: byte where "MAX7219_REG_INTENSITY = 0x0a"
definition MAX7219_REG_SCAN_LIMIT :: byte where "MAX7219_REG_SCAN_LIMIT = 0x0b"
definition MAX7219_REG_SHUTDOWN :: byte where "MAX7219_REG_SHUTDOWN = 0x0c"
definition MAX7219_REG_DISPLAY_TEST :: byte where "MAX7219_REG_DISPLAY_TEST = 0x0f"
definition INTENSITY_MAX :: byte where "INTENSITY_MAX = 0x0f"

text \<open>
  The constructor initialises the pins, \<open>digits\<close>, \<open>pos\<close> and \<open>autoscrolling\<close>;
  \<open>justify\<close> and the eight cells of \<open>buf\<close> keep their stale content
  (\<open>justify0\<close>, \<open>buf0\<close>).
\<close>

definition SevSeg_MAX7219 :: "byte \<Rightarrow> byte \<Rightarrow> byte \<Rightarrow> bool \<Rightarrow> (nat \<Rightarrow> cchar) \<Rightarrow> SevSeg" where
  "SevSeg_MAX7219 din clk cs justify0 buf0 =
     \<lparr>dinPin = din, clkPin = clk, csPin = cs, digits = 4, pos = 0,
      autoscrolling = False, justify = justify0, buf = map buf0 [0..<8], spi = []\<rparr>"

subsection \<open>The font table and lookup\<close>

text \<open>
  The 94 entries of \<^verbatim>\<open>pattern\<close>, in the rows of the source (the binary literals
  written in hexadecimal), for the characters 0x20 (space) to 0x7D.
\<close>

definition pattern :: "byte list" where
  "pattern =
    [0x00, 0x61, 0x44, 0x6E, 0x00,
     0x00, 0x00, 0x40, 0x9C, 0xF0,
     0x00, 0x00, 0x00, 0x02, 0x01,
     0x00,
     0xFC, 0x60, 0xDA, 0xF2, 0x66,
     0xB6, 0xBE, 0xE0, 0xFE, 0xF6,
     0x00, 0x00, 0x00, 0x12, 0x00,
     0xCB, 0xFA,
     0xEE, 0xFE, 0x9C, 0x7A, 0x9E,
     0x8E, 0xBC, 0x6E, 0x60, 0x70,
     0xAE, 0x1C, 0xA8, 0xEC, 0xFC,
     0xCE, 0xE6, 0x0A, 0xB6, 0x1E,
     0x7C, 0x00, 0x00, 0x00, 0x76,
     0xDA,
     0x9C, 0x04, 0xF0, 0x00, 0x10,
     0x40,
     0xFA, 0x3E, 0x1A, 0x7A, 0xDE,
     0x8E, 0xF6, 0x2E, 0x08, 0x30,
     0xAE, 0x0C, 0xA8, 0x2A, 0x3A,
     0xCE, 0xE6, 0x0A, 0xB6, 0x1E,
     0x38, 0x00, 0x00, 0x00, 0x76,
     0xDA,
     0x9C, 0x0C, 0xF0]"

text \<open>
  \<^verbatim>\<open>pat = (pat >> 1) | (pat << 7)\<close>: the byte is promoted to \<^verbatim>\<open>int\<close>, shifted both
  ways, and the result is cut back to eight bits by the assignment.
\<close>

definition rotate_pat :: "byte \<Rightarrow> byte" where
  "rotate_pat pat = word_of_int (drop_bit 1 (uint pat) OR push_bit 7 (uint pat))"

text \<open>
  \<^verbatim>\<open>lookup(c, dp)\<close>. The local \<^verbatim>\<open>pat\<close> is declared without an initialiser and is
  assigned only inside the range check; \<open>pat0\<close> is its stale content.
\<close>

definition lookup :: "byte \<Rightarrow> cchar \<Rightarrow> bool \<Rightarrow> byte" where
  "lookup pat0 c dp =
     (let pat = (if 0x20 \<le> sint c \<and> sint c \<le> 0x7D
                 then rotate_pat (pattern ! nat (sint c - 0x20))
                 else pat0)
      in if dp then pat OR 0x80 else pat)"

subsection \<open>Operations without a character\<close>

text \<open>\<^verbatim>\<open>clear\<close>: the loop over \<^verbatim>\<open>i = 0 .. 7\<close>, then the cursor.\<close>

fun clear_loop :: "nat list \<Rightarrow> SevSeg \<Rightarrow> SevSeg" where
  "clear_loop [] s = s"
| "clear_loop (i # is) s =
     clear_loop is (writeSPI (of_nat (i + 1)) 0x00 (s\<lparr>buf := (buf s)[i := 0x00]\<rparr>))"

definition clear :: "SevSeg \<Rightarrow> SevSeg" where
  "clear s = (clear_loop [0..<8] s)\<lparr>pos := 0\<rparr>"

definition display :: "SevSeg \<Rightarrow> SevSeg" where
  "display s = writeSPI MAX7219_REG_SHUTDOWN 1 s"

definition noDisplay :: "SevSeg \<Rightarrow> SevSeg" where
  "noDisplay s = writeSPI MAX7219_REG_SHUTDOWN 0 s"

definition autoScroll :: "SevSeg \<Rightarrow> SevSeg" where
  "autoScroll s = s\<lparr>autoscrolling := True\<rparr>"

definition noAutoScroll :: "SevSeg \<Rightarrow> SevSeg" where
  "noAutoScroll s = s\<lparr>autoscrolling := False\<rparr>"

definition testMode :: "SevSeg \<Rightarrow> SevSeg" where
  "testMode s = writeSPI MAX7219_REG_DISPLAY_TEST 1 s"

definition noTestMode :: "SevSeg \<Rightarrow> SevSeg" where
  "noTestMode s = writeSPI MAX7219_REG_DISPLAY_TEST 0 s"

definition brightness :: "byte \<Rightarrow> SevSeg \<Rightarrow> SevSeg" where
  "brightness b s = writeSPI MAX7219_REG_INTENSITY (b AND 0x0f) s"

definition home :: "SevSeg \<Rightarrow> SevSeg" where
  "home s = s\<lparr>pos := 0\<rparr>"

definition setCursor :: "byte \<Rightarrow> byte \<Rightarrow> SevSeg \<Rightarrow> SevSeg" where
  "setCursor x y s = s\<lparr>pos := x\<rparr>"

text \<open>
  \<^verbatim>\<open>begin(byte digits)\<close>. The parameter has the name of the member and hides it in
  the body: the clamp \<^verbatim>\<open>if (digits < 4) digits = 4\<close> assigns the parameter
  (\<open>digits_param\<close> here), and the member \<open>digits\<close> is not assigned.
\<close>

definition begin_op :: "byte \<Rightarrow> SevSeg \<Rightarrow> SevSeg" where
  "begin_op digits_param s =
     (let digits_param = (if digits_param < 4 then 4 else digits_param);
          s = writeSPI MAX7219_REG_SCAN_LIMIT digits_param s;
          s = writeSPI MAX7219_REG_DECODE 0x00 s;
          s = clear s;
          s = noTestMode s;
          s = brightness INTENSITY_MAX s
      in display s)"

subsection \<open>Writing characters\<close>

text \<open>
  \<^verbatim>\<open>displayChar(digit, value, dp)\<close>: \<^verbatim>\<open>buf[int(digit)] = code\<close>, then the register
  \<^verbatim>\<open>digit + 1\<close>. \<open>pat0\<close> is passed on to \<open>lookup\<close>.
\<close>

definition displayChar :: "byte \<Rightarrow> cchar \<Rightarrow> cchar \<Rightarrow> bool \<Rightarrow> SevSeg \<Rightarrow> fault + SevSeg" where
  "displayChar pat0 digit val dp s =
     (let code = lookup pat0 val dp
      in if 0 \<le> sint digit \<and> sint digit < 8
         then Inr (writeSPI (digit + 1) code (s\<lparr>buf := (buf s)[nat (sint digit) := code]\<rparr>))
         else Inl (BufIndex (sint digit)))"

text \<open>
  The loop of \<^verbatim>\<open>write\<close> that scrolls: \<^verbatim>\<open>for (byte i = 0; i < digits - 1; i++)\<close>,
  as a recursion over the values of \<^verbatim>\<open>i\<close>. The body reads \<^verbatim>\<open>buf[i + 1]\<close> and
  writes \<^verbatim>\<open>buf[i]\<close>.
\<close>

fun scroll_loop :: "nat list \<Rightarrow> SevSeg \<Rightarrow> fault + SevSeg" where
  "scroll_loop [] s = Inr s"
| "scroll_loop (i # is) s =
     (if i + 1 < 8
      then scroll_loop is
             (writeSPI (of_nat (i + 1)) (buf s ! (i + 1)) (s\<lparr>buf := (buf s)[i := buf s ! (i + 1)]\<rparr>))
      else Inl (BufIndex (int i + 1)))"

text \<open>
  \<^verbatim>\<open>write(ch)\<close> (\<open>write_op\<close>) returns the number of characters taken and the new object.
  In \<^verbatim>\<open>digits - 1\<close> the byte is promoted to \<^verbatim>\<open>int\<close>, so the bound is -1 for
  \<open>digits = 0\<close> and the loop does not run; the argument \<^verbatim>\<open>digits - 1\<close> of
  \<^verbatim>\<open>displayChar\<close> is cut to a \<^verbatim>\<open>char\<close>. \<^verbatim>\<open>pos++\<close> is done before
  \<^verbatim>\<open>displayChar\<close> runs, on a byte.
\<close>

definition write_op :: "byte \<Rightarrow> byte \<Rightarrow> SevSeg \<Rightarrow> fault + (nat \<times> SevSeg)" where
  "write_op pat0 ch s =
     (if ch = 0x2E then
        (let p = (if pos s > 0 then pos s - 1 else 0)
         in if unat p < 8
            then (let b = (buf s ! unat p) OR 0x80
                  in Inr (1, writeSPI (p + 1) b (s\<lparr>buf := (buf s)[unat p := b]\<rparr>)))
            else Inl (BufIndex (uint p)))
      else if autoscrolling s \<and> pos s = digits s then
        (case scroll_loop [0..<nat (uint (digits s) - 1)] s of
           Inl e \<Rightarrow> Inl e
         | Inr s1 \<Rightarrow>
             (case displayChar pat0 (digits s1 - 1) ch False s1 of
                Inl e \<Rightarrow> Inl e
              | Inr s2 \<Rightarrow> Inr (1, s2)))
      else
        (case displayChar pat0 (pos s) ch False (s\<lparr>pos := pos s + 1\<rparr>) of
           Inl e \<Rightarrow> Inl e
         | Inr s2 \<Rightarrow> Inr (1, s2)))"

subsection \<open>displayText\<close>

text \<open>
  A C string is the list of its characters before the terminating zero;
  \<^verbatim>\<open>strlen\<close> stops at the first zero.
\<close>

definition strlen :: "cchar list \<Rightarrow> nat" where
  "strlen str = length (takeWhile (\<lambda>c. c \<noteq> 0) str)"

text \<open>
  The first loop, over the characters \<^verbatim>\<open>text[0] .. text[s - 1]\<close> in order, on the
  locals \<^verbatim>\<open>trimStr\<close>, \<^verbatim>\<open>decimal\<close> (two arrays of 16) and \<^verbatim>\<open>y\<close>.
\<close>

fun compact_loop :: "cchar list \<Rightarrow> cchar list \<times> bool list \<times> int \<Rightarrow> fault + (cchar list \<times> bool list \<times> int)" where
  "compact_loop [] (trimStr, decimal, y) = Inr (trimStr, decimal, y)"
| "compact_loop (c # cs) (trimStr, decimal, y) =
     (if c = 0x2E then
        (if 0 \<le> y - 1 \<and> y - 1 < 16
         then compact_loop cs (trimStr, decimal[nat (y - 1) := True], y)
         else Inl (DecimalIndex (y - 1)))
      else
        (if 0 \<le> y \<and> y < 16
         then compact_loop cs (trimStr[nat y := c], decimal[nat y := False], y + 1)
         else Inl (TrimStrIndex y)))"

text \<open>
  The second loop, \<^verbatim>\<open>for (x = 0; x < y; x++)\<close>, as a recursion over the values of
  \<^verbatim>\<open>x\<close>; \<open>pat0 x\<close> is the stale content of \<^verbatim>\<open>pat\<close> in the call of that round.
\<close>

fun render_loop :: "(nat \<Rightarrow> byte) \<Rightarrow> bool \<Rightarrow> cchar list \<Rightarrow> bool list \<Rightarrow> int \<Rightarrow> nat list \<Rightarrow> SevSeg \<Rightarrow> fault + SevSeg" where
  "render_loop pat0 rightjustify trimStr decimal y [] s = Inr s"
| "render_loop pat0 rightjustify trimStr decimal y (x # xs) s =
     (if x < 16 then
        (case (if \<not> rightjustify
               then displayChar (pat0 x) (of_nat x) (trimStr ! x) (decimal ! x) s
               else displayChar (pat0 x) (of_int (uint (digits s) - y + int x)) (trimStr ! x) (decimal ! x) s) of
           Inl e \<Rightarrow> Inl e
         | Inr s' \<Rightarrow> render_loop pat0 rightjustify trimStr decimal y xs s')
      else Inl (TrimStrIndex (int x)))"

text \<open>
  \<^verbatim>\<open>displayText(text, rightjustify)\<close>. \<^verbatim>\<open>trimStr\<close> starts as 16 zeros;
  \<^verbatim>\<open>decimal\<close> is not initialised, \<open>decimal0\<close> is the stale content of its 16 cells.
\<close>

definition displayText :: "(nat \<Rightarrow> byte) \<Rightarrow> (nat \<Rightarrow> bool) \<Rightarrow> cchar list \<Rightarrow> bool \<Rightarrow> SevSeg \<Rightarrow> fault + SevSeg" where
  "displayText pat0 decimal0 str rightjustify s =
     (let n = (if strlen str > 16 then 16 else strlen str)
      in case compact_loop (take n str) (replicate 16 0, map decimal0 [0..<16], 0) of
           Inl e \<Rightarrow> Inl e
         | Inr (trimStr, decimal, y) \<Rightarrow>
             (let y = (if y > uint (digits s) then uint (digits s) else y)
              in render_loop pat0 rightjustify trimStr decimal y [0..<nat y] s))"

subsection \<open>Calls and the digit registers\<close>

text \<open>
  The public member functions as values; a call that reaches \<open>lookup\<close> or
  \<^verbatim>\<open>displayText\<close> carries the stale contents its run finds. \<open>run\<close> performs calls
  in order and stops at the first fault.
\<close>

datatype call =
    Begin byte
  | Clear
  | Brightness byte
  | Display
  | NoDisplay
  | Home
  | SetCursor byte byte
  | AutoScroll
  | NoAutoScroll
  | DisplayChar byte cchar cchar bool
  | DisplayText "nat \<Rightarrow> byte" "nat \<Rightarrow> bool" "cchar list" bool
  | TestMode
  | NoTestMode
  | Write byte byte

fun perform :: "call \<Rightarrow> SevSeg \<Rightarrow> fault + SevSeg" where
  "perform (Begin n) s = Inr (begin_op n s)"
| "perform Clear s = Inr (clear s)"
| "perform (Brightness b) s = Inr (brightness b s)"
| "perform Display s = Inr (display s)"
| "perform NoDisplay s = Inr (noDisplay s)"
| "perform Home s = Inr (home s)"
| "perform (SetCursor x y) s = Inr (setCursor x y s)"
| "perform AutoScroll s = Inr (autoScroll s)"
| "perform NoAutoScroll s = Inr (noAutoScroll s)"
| "perform (DisplayChar pat0 digit val dp) s = displayChar pat0 digit val dp s"
| "perform (DisplayText pat0 decimal0 str rightjustify) s = displayText pat0 decimal0 str rightjustify s"
| "perform TestMode s = Inr (testMode s)"
| "perform NoTestMode s = Inr (noTestMode s)"
| "perform (Write pat0 ch) s = (case write_op pat0 ch s of Inl e \<Rightarrow> Inl e | Inr (n, s') \<Rightarrow> Inr s')"

fun run :: "call list \<Rightarrow> SevSeg \<Rightarrow> fault + SevSeg" where
  "run [] s = Inr s"
| "run (c # cs) s = (case perform c s of Inl e \<Rightarrow> Inl e | Inr s' \<Rightarrow> run cs s')"

text \<open>
  \<open>last_sent frames r\<close> is the data byte of the most recent frame for register \<open>r\<close>,
  if there is one. \<open>mirror\<close>: each of the eight buffer entries whose digit register
  (index + 1) has been written holds the byte last sent to it.
\<close>

definition last_sent :: "(byte \<times> byte) list \<Rightarrow> byte \<Rightarrow> byte option" where
  "last_sent frames r = map_of (rev frames) r"

definition mirror :: "SevSeg \<Rightarrow> bool" where
  "mirror s =
     list_all (\<lambda>i. case last_sent (spi s) (of_nat (i + 1)) of
                      None \<Rightarrow> True
                    | Some d \<Rightarrow> buf s ! i = d) [0..<8]"

text \<open>The digit registers of the controller are the opcodes 1 to 8.\<close>

definition digit_register :: "byte \<Rightarrow> bool" where
  "digit_register r = (1 \<le> r \<and> r \<le> 8)"

subsection \<open>displayText in the words of the specification\<close>

text \<open>
  The specification describes \<^verbatim>\<open>displayText\<close> on a sequence of slots, each a
  character with a decimal-point flag. Pass 1: a \<open>'.'\<close> marks the flag of the most
  recently appended slot, if any (a leading dot is dropped); any other character is
  appended as a new slot with the flag false.
\<close>

fun compact_spec :: "cchar list \<Rightarrow> (cchar \<times> bool) list \<Rightarrow> (cchar \<times> bool) list" where
  "compact_spec [] slots = slots"
| "compact_spec (c # cs) slots =
     (if c = 0x2E
      then compact_spec cs (if slots = [] then [] else butlast slots @ [(fst (last slots), True)])
      else compact_spec cs (slots @ [(c, False)]))"

text \<open>
  Pass 2: slot \<open>i\<close> goes to its target digit by the direct-addressed write
  (\<open>displayChar\<close> above), in the order of the slots.
\<close>

fun write_slots :: "(nat \<Rightarrow> byte) \<Rightarrow> (nat \<Rightarrow> nat) \<Rightarrow> (cchar \<times> bool) list \<Rightarrow> nat list \<Rightarrow> SevSeg \<Rightarrow> fault + SevSeg" where
  "write_slots pat0 target slots [] s = Inr s"
| "write_slots pat0 target slots (i # is) s =
     (case displayChar (pat0 i) (of_nat (target i)) (fst (slots ! i)) (snd (slots ! i)) s of
        Inl e \<Rightarrow> Inl e
      | Inr s' \<Rightarrow> write_slots pat0 target slots is s')"

text \<open>
  The input is capped at 16 characters, compacted, the slot count is capped at the
  digit count, and slot \<open>i\<close> is written to digit \<open>i\<close> (left-justified) or to digit
  \<open>digitCount - slotCount + i\<close> (right-justified).
\<close>

definition displayText_spec :: "(nat \<Rightarrow> byte) \<Rightarrow> cchar list \<Rightarrow> bool \<Rightarrow> SevSeg \<Rightarrow> fault + SevSeg" where
  "displayText_spec pat0 str rightJustify s =
     (let capped = take 16 (takeWhile (\<lambda>c. c \<noteq> 0) str);
          digitCount = unat (digits s);
          slots = take digitCount (compact_spec capped []);
          slotCount = length slots
      in write_slots pat0 (\<lambda>i. if rightJustify then digitCount - slotCount + i else i)
           slots [0..<slotCount] s)"

text \<open>
  How the locals of the first loop of \<^verbatim>\<open>displayText\<close> hold a sequence of slots:
  \<^verbatim>\<open>y\<close> is their number, and cell \<open>i\<close> of the two arrays holds slot \<open>i\<close>.
\<close>

definition slots_in :: "cchar list \<Rightarrow> bool list \<Rightarrow> int \<Rightarrow> (cchar \<times> bool) list \<Rightarrow> bool" where
  "slots_in trimStr decimal y slots =
     (y = int (length slots) \<and> length trimStr = 16 \<and> length decimal = 16 \<and>
      (\<forall>i<length slots. trimStr ! i = fst (slots ! i) \<and> decimal ! i = snd (slots ! i)))"

section \<open>The font table\<close>

lemma length_pattern: "length pattern = 94"
  by (simp add: pattern_def)

text \<open>The shifts on the promoted value are a rotation of the byte.\<close>

lemma rotate_pat_rotr: "rotate_pat x = word_rotr 1 x"
proof (rule bit_word_eqI)
  fix n
  assume n: "n < LENGTH(8)"
  show "bit (rotate_pat x) n = bit (word_rotr 1 x) n"
  proof (cases "n = 7")
    case True
    then show ?thesis
      by (auto simp add: rotate_pat_def bit_simps bit_uint_iff dest: bit_imp_le_length)
  next
    case False
    with n have "n < 7" by simp
    then show ?thesis
      by (simp add: rotate_pat_def bit_simps bit_uint_iff)
  qed
qed

text \<open>A signed byte, read from its unsigned value.\<close>

lemma sint_byte: "sint (c::8 word) = (if uint c < 128 then uint c else uint c - 256)"
proof -
  have b: "0 \<le> uint c" "uint c < 256"
    using uint_lt2p [of c] by simp_all
  have s: "sint c = (uint c + 128) mod 256 - 128"
    by (simp add: sint_uint signed_take_bit_eq_take_bit_shift take_bit_eq_mod)
  show ?thesis
  proof (cases "uint c < 128")
    case True
    with b have "(uint c + 128) mod 256 = uint c + 128" by simp
    with True s show ?thesis by simp
  next
    case False
    with b have "(uint c + 128) mod 256 = uint c + 128 - 256"
      by (simp add: mod_pos_geq)
    with False s show ?thesis by simp
  qed
qed

text \<open>
  The range check of \<open>lookup\<close> does not depend on the sign of \<^verbatim>\<open>char\<close>: it holds
  exactly for the bytes 0x20 to 0x7D.
\<close>

lemma char_range_iff:
  "(0x20 \<le> sint c \<and> sint c \<le> 0x7D) = (0x20 \<le> c \<and> c \<le> (0x7D::8 word))"
proof -
  have b: "0 \<le> uint c" "uint c < 256"
    using uint_lt2p [of c] by simp_all
  have "(0x20 \<le> c) = (0x20 \<le> uint c)" "(c \<le> 0x7D) = (uint c \<le> 0x7D)"
    by (simp_all add: word_le_def)
  then show ?thesis using b
    by (auto simp add: sint_byte)
qed

lemma char_index:
  assumes "0x20 \<le> c" "c \<le> (0x7D::8 word)"
  shows "nat (sint c - 0x20) = unat c - 32"
proof -
  from assms have b: "0x20 \<le> uint c" "uint c \<le> 0x7D"
    by (simp_all add: word_le_def)
  then have s: "sint c = uint c"
    by (simp add: sint_byte)
  have "nat (uint c - 32) = nat (uint c) - nat 32"
    using b by (intro nat_diff_distrib) simp_all
  then show ?thesis
    unfolding s unat_eq_nat_uint by simp
qed

lemma char_index_less:
  assumes "0x20 \<le> c" "c \<le> (0x7D::8 word)"
  shows "unat c - 32 < length pattern"
proof -
  from assms(2) have "unat c \<le> unat (0x7D::8 word)"
    by (simp only: word_le_nat_alt)
  then have "unat c \<le> 125"
    by simp
  then show ?thesis
    unfolding length_pattern by simp
qed

lemma lookup_in_range:
  assumes "0x20 \<le> c" "c \<le> 0x7D"
  shows "lookup pat0 c dp =
    (if dp then word_rotr 1 (pattern ! (unat c - 32)) OR 0x80 else word_rotr 1 (pattern ! (unat c - 32)))"
  using assms char_range_iff [of c]
  by (simp add: lookup_def char_index rotate_pat_rotr)

lemma lookup_out_of_range:
  assumes "\<not> (0x20 \<le> c \<and> c \<le> 0x7D)"
  shows "lookup pat0 c dp = (if dp then pat0 OR 0x80 else pat0)"
  using assms char_range_iff [of c]
  by (auto simp add: lookup_def)

text \<open>
  C1. The claim: for every character outside 0x20..0x7D, \<open>lookup(c, false)\<close> is the
  blank pattern 0x00. The source returns the local \<^verbatim>\<open>pat\<close>, which no statement has
  assigned on this path: for the character 0x7E and a local whose storage held 0xFF,
  the result is 0xFF.
\<close>

theorem lookup_out_of_range_returns_stale: "lookup 0xFF 0x7E False = 0xFF"
  by (simp add: lookup_def)

text \<open>
  C7. For every character \<open>c\<close> from 0x20 to 0x7D, the index \<open>c - 0x20\<close> lies in the
  table, and \<open>lookup(c, false)\<close> is the table entry rotated right by one as a byte:
  bit 0 of the entry is bit 7 of the result, and bit \<open>n + 1\<close> of the entry is bit
  \<open>n\<close> of the result.
\<close>

theorem lookup_rotates_entry:
  assumes "0x20 \<le> c" "c \<le> 0x7D"
  shows "unat c - 32 < length pattern
       \<and> lookup pat0 c False = word_rotr 1 (pattern ! (unat c - 32))
       \<and> bit (lookup pat0 c False) 7 = bit (pattern ! (unat c - 32)) 0
       \<and> (\<forall>n<7. bit (lookup pat0 c False) n = bit (pattern ! (unat c - 32)) (Suc n))"
  using assms
  by (simp add: lookup_in_range char_index_less bit_word_rotr_iff)

theorem lookup_rotates_entry_witness:
  "(0x20::byte) \<le> 0x31 \<and> (0x31::byte) \<le> 0x7D
   \<and> lookup 0 0x31 False = word_rotr 1 (pattern ! (unat (0x31::byte) - 32))
   \<and> pattern ! (unat (0x31::byte) - 32) = 0x60
   \<and> lookup 0 0x31 False = 0x30"
proof -
  have h: "(0x20::byte) \<le> 0x31" "(0x31::byte) \<le> 0x7D"
    by simp_all
  have e: "pattern ! (unat (0x31::byte) - 32) = 0x60"
    by (simp add: pattern_def)
  have v: "lookup 0 0x31 False = 0x30"
    by (simp add: lookup_def rotate_pat_def pattern_def)
  from lookup_rotates_entry [OF h, of 0] h e v show ?thesis
    by blast
qed

text \<open>
  C8. For every character \<open>c\<close> from 0x21 to 0x7D the result of \<open>lookup\<close> is
  determined by \<open>c\<close> and \<open>dp\<close> alone (the stale content of the local does not reach
  it), and \<open>lookup(c, true)\<close> is \<open>lookup(c, false) | 0x80\<close>.
\<close>

theorem lookup_deterministic_dp:
  assumes "0x21 \<le> c" "c \<le> 0x7D"
  shows "lookup p c dp = lookup q c dp \<and> lookup p c True = lookup q c False OR 0x80"
proof -
  from assms(1) have "0x20 \<le> c"
    by (simp add: word_le_def)
  with assms(2) show ?thesis
    by (simp add: lookup_in_range)
qed

theorem lookup_deterministic_dp_witness:
  "(0x21::byte) \<le> 0x41 \<and> (0x41::byte) \<le> 0x7D
   \<and> lookup 0x00 0x41 True = lookup 0xFF 0x41 True
   \<and> lookup 0x00 0x41 True = lookup 0xFF 0x41 False OR 0x80
   \<and> lookup 0xFF 0x41 False = 0x77 \<and> lookup 0x00 0x41 True = 0xF7"
proof -
  have h: "(0x21::byte) \<le> 0x41" "(0x41::byte) \<le> 0x7D"
    by simp_all
  have v: "lookup 0xFF 0x41 False = 0x77" "lookup 0x00 0x41 True = 0xF7"
    by (simp_all add: lookup_def rotate_pat_def pattern_def)
  from lookup_deterministic_dp [OF h, of "0x00" True "0xFF"] h v show ?thesis
    by blast
qed


section \<open>Register writes and begin\<close>

lemma writeSPI_fields [simp]:
  "buf (writeSPI a d s) = buf s"
  "pos (writeSPI a d s) = pos s"
  "digits (writeSPI a d s) = digits s"
  "autoscrolling (writeSPI a d s) = autoscrolling s"
  "spi (writeSPI a d s) = spi s @ [(a, d)]"
  by (simp_all add: writeSPI_def)

lemma clear_loop_fields [simp]:
  "pos (clear_loop ns s) = pos s"
  "digits (clear_loop ns s) = digits s"
  "autoscrolling (clear_loop ns s) = autoscrolling s"
  "length (buf (clear_loop ns s)) = length (buf s)"
  by (induction ns arbitrary: s; simp)+

lemma clear_loop_spi: "spi (clear_loop ns s) = spi s @ map (\<lambda>i. (of_nat (i + 1), 0)) ns"
  by (induction ns arbitrary: s) simp_all

lemma clear_fields [simp]:
  "pos (clear s) = 0"
  "digits (clear s) = digits s"
  "autoscrolling (clear s) = autoscrolling s"
  "length (buf (clear s)) = length (buf s)"
  "spi (clear s) = spi s @ map (\<lambda>i. (of_nat (i + 1), 0)) [0..<8]"
  by (simp_all add: clear_def clear_loop_spi)

lemma begin_digits: "digits (begin_op n s) = digits s"
  by (simp add: begin_op_def Let_def display_def brightness_def noTestMode_def)

lemma begin_spi: "spi (begin_op n s) =
   spi s @ [(MAX7219_REG_SCAN_LIMIT, if n < 4 then 4 else n), (MAX7219_REG_DECODE, 0)]
     @ map (\<lambda>i. (of_nat (i + 1), 0)) [0..<8]
     @ [(MAX7219_REG_DISPLAY_TEST, 0), (MAX7219_REG_INTENSITY, 0x0f), (MAX7219_REG_SHUTDOWN, 1)]"
  by (simp add: begin_op_def Let_def display_def brightness_def noTestMode_def INTENSITY_MAX_def)

text \<open>
  C2. The claim: after \<open>begin(n)\<close> the stored digit count is \<open>max(n, 4)\<close>, so
  \<open>begin(8)\<close> leaves it at 8. In the source the clamp and the scan-limit write use
  the parameter, which hides the member: after \<open>begin(8)\<close> on a new object the member
  \<open>digits\<close> is still the 4 of the constructor, and 8 has gone to the scan-limit register
  only. For every \<open>n\<close> and every object, \<open>begin(n)\<close> leaves the member as it was.
\<close>

theorem begin_leaves_member_digits:
  "digits (begin_op 8 (SevSeg_MAX7219 din clk cs justify0 buf0)) = 4
   \<and> hd (spi (begin_op 8 (SevSeg_MAX7219 din clk cs justify0 buf0))) = (MAX7219_REG_SCAN_LIMIT, 8)
   \<and> digits (begin_op n s) = digits s"
  by (simp add: begin_digits begin_spi SevSeg_MAX7219_def)

section \<open>write\<close>

text \<open>
  C5 (amended). For every state whose cursor position is at most 8, \<open>write('.')\<close>
  returns 1 and changes the object in two places only: the buffer entry at
  \<open>cursor - 1\<close> (at 0 when the cursor is 0) gets 0x80 or-ed in, and the one register
  write of that digit (register \<open>index + 1\<close>, the new entry) is appended to what has
  been sent. The cursor, the other members and the other buffer entries are as before.
\<close>

theorem write_dot:
  assumes "pos s \<le> 8"
  shows "write_op pat0 0x2E s =
    Inr (1, s\<lparr>buf := (buf s)[(if pos s = 0 then 0 else unat (pos s) - 1) :=
                          buf s ! (if pos s = 0 then 0 else unat (pos s) - 1) OR 0x80],
               spi := spi s @ [(of_nat ((if pos s = 0 then 0 else unat (pos s) - 1) + 1),
                               buf s ! (if pos s = 0 then 0 else unat (pos s) - 1) OR 0x80)]\<rparr>)"
proof (cases "pos s = 0")
  case True
  then show ?thesis
    by (simp add: write_op_def writeSPI_def Let_def)
next
  case False
  from assms have "unat (pos s) \<le> unat (8::byte)"
    by (simp only: word_le_nat_alt)
  then have le: "unat (pos s) \<le> 8" by simp
  from False have u: "unat (pos s - 1) = unat (pos s) - 1"
    by (simp add: unat_minus_one)
  from False have gt: "0 < pos s"
    by (simp add: word_gt_0)
  from False have nz: "0 < unat (pos s)"
    by (simp add: unat_gt_0)
  have w: "pos s - 1 + 1 = (of_nat (unat (pos s) - 1 + 1) :: byte)"
    using nz by simp
  show ?thesis
    using False le nz gt u w
    by (simp add: write_op_def writeSPI_def Let_def)
qed

theorem write_dot_witness:
  "(1::byte) \<le> 8 \<and>
   write_op 0 0x2E \<lparr>dinPin = 11, clkPin = 13, csPin = 10, digits = 4, pos = 1, autoscrolling = False,
       justify = False, buf = [0x30, 0, 0, 0, 0, 0, 0, 0], spi = []\<rparr>
   = Inr (1, \<lparr>dinPin = 11, clkPin = 13, csPin = 10, digits = 4, pos = 1, autoscrolling = False,
       justify = False, buf = [0xB0, 0, 0, 0, 0, 0, 0, 0], spi = [(1, 0xB0)]\<rparr>)"
  using write_dot [of "\<lparr>dinPin = 11, clkPin = 13, csPin = 10, digits = 4, pos = 1, autoscrolling = False,
       justify = False, buf = [0x30, 0, 0, 0, 0, 0, 0, 0], spi = []\<rparr>" 0]
  by simp

text \<open>
  Without the bound on the cursor the statement of C5 fails: after
  \<open>setCursor(9)\<close> the index \<open>cursor - 1\<close> is 8, outside the eight entries of
  \<^verbatim>\<open>buf\<close>.
\<close>

theorem write_dot_cursor_9_counterexample:
  "write_op 0 0x2E (setCursor 9 0 (SevSeg_MAX7219 0 0 0 False (\<lambda>i. 0))) = Inl (BufIndex 8)"
  by (simp add: write_op_def setCursor_def SevSeg_MAX7219_def)

lemma scroll_loop_upt:
  assumes "m \<le> 7" "length (buf s) = 8"
  shows "scroll_loop [k..<m] s =
    Inr (s\<lparr>buf := map (\<lambda>j. if k \<le> j \<and> j < m then buf s ! (j + 1) else buf s ! j) [0..<8],
           spi := spi s @ map (\<lambda>i. (of_nat (i + 1), buf s ! (i + 1))) [k..<m]\<rparr>)"
  using assms
proof (induction "m - k" arbitrary: k s)
  case 0
  then have e: "[k..<m] = []" by simp
  have "map (\<lambda>j. if k \<le> j \<and> j < m then buf s ! (j + 1) else buf s ! j) [0..<8]
      = map (\<lambda>j. buf s ! j) [0..<8]"
    using 0(1) by (intro map_cong) auto
  also have "\<dots> = buf s"
    using 0(3) map_nth [of "buf s"] by simp
  finally have b: "map (\<lambda>j. if k \<le> j \<and> j < m then buf s ! (j + 1) else buf s ! j) [0..<8] = buf s" .
  show ?case
    unfolding e b by simp
next
  case (Suc d)
  then have km: "k < m" by simp
  then have upt: "[k..<m] = k # [Suc k..<m]"
    by (simp add: upt_conv_Cons)
  let ?s1 = "writeSPI (of_nat (k + 1)) (buf s ! (k + 1)) (s\<lparr>buf := (buf s)[k := buf s ! (k + 1)]\<rparr>)"
  have d: "d = m - Suc k" using Suc(2) by simp
  have len1: "length (buf ?s1) = 8" using Suc(4) by simp
  have k8: "k + 1 < 8" using km Suc(3) by simp
  have ih: "scroll_loop [Suc k..<m] ?s1 =
    Inr (?s1\<lparr>buf := map (\<lambda>j. if Suc k \<le> j \<and> j < m then buf ?s1 ! (j + 1) else buf ?s1 ! j) [0..<8],
           spi := spi ?s1 @ map (\<lambda>i. (of_nat (i + 1), buf ?s1 ! (i + 1))) [Suc k..<m]\<rparr>)"
    by (rule Suc(1) [OF d Suc(3) len1])
  have b: "map (\<lambda>j. if Suc k \<le> j \<and> j < m then buf ?s1 ! (j + 1) else buf ?s1 ! j) [0..<8]
         = map (\<lambda>j. if k \<le> j \<and> j < m then buf s ! (j + 1) else buf s ! j) [0..<8]"
  proof (intro map_cong refl)
    fix j
    assume "j \<in> set [0..<8]"
    then have j: "j < 8" by simp
    show "(if Suc k \<le> j \<and> j < m then buf ?s1 ! (j + 1) else buf ?s1 ! j)
        = (if k \<le> j \<and> j < m then buf s ! (j + 1) else buf s ! j)"
    proof (cases "j = k")
      case True
      then show ?thesis using km j Suc(4) by simp
    next
      case False
      then show ?thesis by (auto simp add: nth_list_update)
    qed
  qed
  have t: "map (\<lambda>i. (of_nat (i + 1) :: byte, buf ?s1 ! (i + 1))) [Suc k..<m]
         = map (\<lambda>i. (of_nat (i + 1), buf s ! (i + 1))) [Suc k..<m]"
    by (intro map_cong) (auto simp add: nth_list_update)
  have "scroll_loop [k..<m] s = scroll_loop [Suc k..<m] ?s1"
    unfolding upt using k8 by (simp del: upt.simps)
  also note ih
  finally show ?case
    unfolding b t by (simp add: writeSPI_def upt)
qed

lemma sint_of_nat_small:
  assumes "k < 128"
  shows "sint (of_nat k :: byte) = int k"
proof -
  have "unat (of_nat k :: byte) = k"
    using assms by (simp add: unat_of_nat)
  then have "uint (of_nat k :: byte) = int k"
    by (simp only: uint_nat)
  with assms show ?thesis
    by (simp only: sint_byte) simp
qed

lemma displayChar_in_range:
  assumes "k < 8"
  shows "displayChar pat0 (of_nat k) v dp s =
    Inr (s\<lparr>buf := (buf s)[k := lookup pat0 v dp],
           spi := spi s @ [(of_nat (k + 1), lookup pat0 v dp)]\<rparr>)"
proof -
  from assms have "sint (of_nat k :: byte) = int k"
    by (simp add: sint_of_nat_small)
  with assms show ?thesis
    by (simp add: displayChar_def writeSPI_def Let_def)
qed

lemma unat_digit_reg:
  assumes "i < 8"
  shows "unat (of_nat (i + 1) :: byte) = i + 1"
proof -
  have "unat (of_nat (i + 1) :: byte) = (i + 1) mod 2 ^ LENGTH(8)"
    by (rule unat_of_nat)
  also have "\<dots> = i + 1"
    using assms by simp
  finally show ?thesis .
qed

lemma digit_reg_inj:
  assumes "i < 8" "j < 8" "(of_nat (i + 1) :: byte) = of_nat (j + 1)"
  shows "i = j"
proof -
  from assms(3) have "unat (of_nat (i + 1) :: byte) = unat (of_nat (j + 1) :: byte)"
    by simp
  then show ?thesis
    unfolding unat_digit_reg [OF assms(1)] unat_digit_reg [OF assms(2)] by simp
qed

lemma digit_of_sint:
  assumes "0 \<le> sint digit" "sint digit < 8"
  shows "digit = (of_nat (nat (sint digit)) :: byte)"
proof -
  have b: "0 \<le> uint digit" "uint digit < 256"
    using uint_lt2p [of digit] by simp_all
  from assms b have s: "sint digit = uint digit"
    by (simp add: sint_byte split: if_splits)
  have "(of_nat (nat (uint digit)) :: byte) = of_nat (unat digit)"
    by (simp only: unat_eq_nat_uint)
  also have "\<dots> = digit"
    by simp
  finally show ?thesis
    unfolding s by simp
qed

text \<open>
  C4. For every character other than \<open>'.'\<close>, if autoscroll is on and the cursor
  equals the digit count \<open>n\<close> (with \<open>1 \<le> n \<le> 8\<close> and the eight entries of
  \<^verbatim>\<open>buf\<close>; every object that calls can reach has \<open>n = 4\<close>, see
  \<open>reachable_digits\<close> below), \<open>write(ch)\<close> returns 1 and changes the buffer and the sent
  frames only: entry \<open>j\<close> of the buffer is the old entry \<open>j + 1\<close> for \<open>j \<le> n - 2\<close>,
  entry \<open>n - 1\<close> is \<open>lookup(ch, false)\<close>, the entries from \<open>n\<close> on are as before; the
  frames sent are the shifted digits in order (register \<open>i + 1\<close> with the old entry
  \<open>i + 1\<close>, for \<open>i = 0 .. n - 2\<close>) and then register \<open>n\<close> with the new pattern. The
  cursor is unchanged.
\<close>

theorem write_autoscroll:
  assumes "ch \<noteq> 0x2E" "autoscrolling s" "pos s = digits s"
    and "0 < digits s" "digits s \<le> 8" "length (buf s) = 8"
  shows "write_op pat0 ch s =
    Inr (1, s\<lparr>buf := map (\<lambda>j. if j + 1 < unat (digits s) then buf s ! (j + 1)
                             else if j + 1 = unat (digits s) then lookup pat0 ch False
                             else buf s ! j) [0..<8],
               spi := spi s @ map (\<lambda>i. (of_nat (i + 1), buf s ! (i + 1))) [0..<unat (digits s) - 1]
                        @ [(digits s, lookup pat0 ch False)]\<rparr>)"
proof -
  define n where "n = unat (digits s)"
  define m where "m = n - 1"
  define code where "code = lookup pat0 ch False"
  from assms(5) have "n \<le> unat (8::byte)"
    unfolding n_def by (simp only: word_le_nat_alt)
  then have n8: "n \<le> 8" by simp
  from assms(4) have n0: "0 < n"
    unfolding n_def by (simp add: unat_gt_0)
  have "nat (uint (digits s) - 1) = nat (int n - 1)"
    unfolding n_def by (simp only: uint_nat)
  also have "\<dots> = m"
    unfolding m_def by arith
  finally have m: "nat (uint (digits s) - 1) = m" .
  have m7: "m \<le> 7" and m8: "m < 8" and nm: "n = m + 1"
    using n8 n0 by (simp_all add: m_def)
  define s1 where "s1 = s\<lparr>buf := map (\<lambda>j. if 0 \<le> j \<and> j < m then buf s ! (j + 1) else buf s ! j) [0..<8],
           spi := spi s @ map (\<lambda>i. (of_nat (i + 1), buf s ! (i + 1))) [0..<m]\<rparr>"
  have loop: "scroll_loop [0..<m] s = Inr s1"
    unfolding s1_def by (rule scroll_loop_upt [OF m7 assms(6)])
  have "of_nat (unat (digits s)) = digits s"
    by simp
  then have d1: "(of_nat (m + 1) :: byte) = digits s"
    unfolding n_def [symmetric] nm .
  have d: "digits s - 1 = of_nat m"
    unfolding d1 [symmetric] by simp
  have ds1: "digits s1 = digits s"
    by (simp add: s1_def)
  have dc: "displayChar pat0 (digits s1 - 1) ch False s1 =
    Inr (s1\<lparr>buf := (buf s1)[m := code], spi := spi s1 @ [(digits s, code)]\<rparr>)"
    unfolding ds1 d code_def using displayChar_in_range [OF m8, of pat0 ch False s1]
    unfolding d1 .
  have b: "(map (\<lambda>j. if 0 \<le> j \<and> j < m then buf s ! (j + 1) else buf s ! j) [0..<8])[m := code]
     = map (\<lambda>j. if j + 1 < n then buf s ! (j + 1)
                  else if j + 1 = n then code
                  else buf s ! j) [0..<8]"
    using m8 unfolding nm by (intro nth_equalityI) (auto simp add: nth_list_update)
  have "write_op pat0 ch s = Inr (1, s1\<lparr>buf := (buf s1)[m := code], spi := spi s1 @ [(digits s, code)]\<rparr>)"
    using assms(1-3) by (simp add: write_op_def m loop dc del: upt.simps)
  also have "s1\<lparr>buf := (buf s1)[m := code], spi := spi s1 @ [(digits s, code)]\<rparr>
     = s\<lparr>buf := map (\<lambda>j. if j + 1 < n then buf s ! (j + 1)
                  else if j + 1 = n then code
                  else buf s ! j) [0..<8],
          spi := spi s @ map (\<lambda>i. (of_nat (i + 1), buf s ! (i + 1))) [0..<m] @ [(digits s, code)]\<rparr>"
    unfolding s1_def using b by (simp del: upt.simps)
  finally show ?thesis
    unfolding n_def m_def code_def n_def .
qed

theorem write_autoscroll_witness:
  "(0x35::byte) \<noteq> 0x2E \<and> (0::byte) < 4 \<and> (4::byte) \<le> 8 \<and>
   write_op 0 0x35 \<lparr>dinPin = 11, clkPin = 13, csPin = 10, digits = 4, pos = 4, autoscrolling = True,
       justify = False, buf = [0x30, 0x6D, 0x79, 0x33, 0, 0, 0, 0], spi = []\<rparr>
   = Inr (1, \<lparr>dinPin = 11, clkPin = 13, csPin = 10, digits = 4, pos = 4, autoscrolling = True,
       justify = False, buf = [0x6D, 0x79, 0x33, 0x5B, 0, 0, 0, 0],
       spi = [(1, 0x6D), (2, 0x79), (3, 0x33), (4, 0x5B)]\<rparr>)"
proof -
  have l: "lookup 0 0x35 False = 0x5B"
    by (simp add: lookup_def rotate_pat_def pattern_def)
  have u: "[0..<8] = [0, 1, 2, 3, 4, 5, 6, 7]" "[0..<3] = [0, 1, 2]"
    by (simp_all add: upt_rec)
  show ?thesis
    using write_autoscroll [of "0x35" "\<lparr>dinPin = 11, clkPin = 13, csPin = 10, digits = 4, pos = 4, autoscrolling = True,
       justify = False, buf = [0x30, 0x6D, 0x79, 0x33, 0, 0, 0, 0], spi = []\<rparr>" 0]
    by (simp add: l u del: upt.simps)
qed


section \<open>displayText\<close>

lemma strlen_Cons_dot: "strlen (0x2E # str) = Suc (strlen str)"
  by (simp add: strlen_def)

text \<open>
  C3. The claim: a leading \<open>'.'\<close> is dropped without an access outside a buffer. In
  the source the first loop runs \<^verbatim>\<open>decimal[y - 1] = true\<close> for every \<open>'.'\<close>; for a
  leading one \<^verbatim>\<open>y\<close> is 0, and the write goes to index -1 of the local array
  \<^verbatim>\<open>decimal\<close>. This holds for every string that begins with \<open>'.'\<close>, every
  justification and every object.
\<close>

theorem displayText_leading_dot_out_of_range:
  "displayText pat0 decimal0 (0x2E # str) rightjustify s = Inl (DecimalIndex (- 1))"
  by (simp add: displayText_def strlen_Cons_dot Let_def del: upt.simps replicate.simps)

subsection \<open>The frame of displayText\<close>

lemma digit_register_of_nat:
  assumes "k < 8"
  shows "digit_register (of_nat (k + 1))"
proof -
  have "unat (1::byte) \<le> unat (of_nat (k + 1) :: byte)" "unat (of_nat (k + 1) :: byte) \<le> unat (8::byte)"
    unfolding unat_digit_reg [OF assms] using assms by simp_all
  then show ?thesis
    unfolding digit_register_def by (simp only: word_le_nat_alt)
qed

lemma displayChar_Inr:
  assumes "displayChar pat0 digit v dp s = Inr s'"
  shows "\<exists>b frames. s' = s\<lparr>buf := b, spi := spi s @ frames\<rparr> \<and> length b = length (buf s)
           \<and> list_all (\<lambda>f. digit_register (fst f)) frames"
proof (cases "0 \<le> sint digit \<and> sint digit < 8")
  case True
  define k where "k = nat (sint digit)"
  from True have r: "0 \<le> sint digit" "sint digit < 8"
    by simp_all
  then have k: "k < 8"
    unfolding k_def by arith
  from r have d: "digit = of_nat k"
    unfolding k_def by (rule digit_of_sint)
  from assms have "s' = s\<lparr>buf := (buf s)[k := lookup pat0 v dp],
      spi := spi s @ [(of_nat (k + 1), lookup pat0 v dp)]\<rparr>"
    unfolding d displayChar_in_range [OF k] by simp
  moreover have "length ((buf s)[k := lookup pat0 v dp]) = length (buf s)"
    by simp
  moreover have "list_all (\<lambda>f. digit_register (fst f)) [(of_nat (k + 1) :: byte, lookup pat0 v dp)]"
    using digit_register_of_nat [OF k] by simp
  ultimately show ?thesis by blast
next
  case False
  with assms show ?thesis
    by (simp add: displayChar_def Let_def)
qed

lemma displayChar_digits:
  assumes "displayChar pat0 digit v dp s = Inr s'"
  shows "digits s' = digits s"
  using displayChar_Inr [OF assms] by auto

lemma render_loop_Inr:
  assumes "render_loop pat0 rj trimStr decimal y xs s = Inr s'"
  shows "\<exists>b frames. s' = s\<lparr>buf := b, spi := spi s @ frames\<rparr> \<and> length b = length (buf s)
           \<and> list_all (\<lambda>f. digit_register (fst f)) frames"
  using assms
proof (induction xs arbitrary: s)
  case Nil
  then have "s' = s\<lparr>buf := buf s, spi := spi s @ []\<rparr>" by simp
  moreover have "list_all (\<lambda>f. digit_register (fst f)) ([] :: (byte \<times> byte) list)" by simp
  ultimately show ?case by blast
next
  case (Cons x xs)
  let ?call = "if \<not> rj then displayChar (pat0 x) (of_nat x) (trimStr ! x) (decimal ! x) s
         else displayChar (pat0 x) (of_int (uint (digits s) - y + int x)) (trimStr ! x) (decimal ! x) s"
  from Cons.prems have x: "x < 16"
    by (cases "x < 16") simp_all
  show ?case
  proof (cases ?call)
    case (Inl e)
    with Cons.prems x show ?thesis by simp
  next
    case (Inr s1)
    with Cons.prems x have r: "render_loop pat0 rj trimStr decimal y xs s1 = Inr s'"
      by simp
    from Inr obtain b1 f1 where 1: "s1 = s\<lparr>buf := b1, spi := spi s @ f1\<rparr>" "length b1 = length (buf s)"
      "list_all (\<lambda>f. digit_register (fst f)) f1"
      by (cases rj) (auto dest: displayChar_Inr)
    from Cons.IH [OF r] obtain b f2 where 2: "s' = s1\<lparr>buf := b, spi := spi s1 @ f2\<rparr>"
      "length b = length (buf s1)" "list_all (\<lambda>f. digit_register (fst f)) f2"
      by blast
    from 1 2 have "s' = s\<lparr>buf := b, spi := spi s @ (f1 @ f2)\<rparr>" "length b = length (buf s)"
      "list_all (\<lambda>f. digit_register (fst f)) (f1 @ f2)"
      by simp_all
    then show ?thesis by blast
  qed
qed

lemma displayText_Inr:
  assumes "displayText pat0 decimal0 str rightjustify s = Inr s'"
  shows "\<exists>b frames. s' = s\<lparr>buf := b, spi := spi s @ frames\<rparr> \<and> length b = length (buf s)
           \<and> list_all (\<lambda>f. digit_register (fst f)) frames"
proof -
  define n where "n = (if strlen str > 16 then 16 else strlen str)"
  define r where "r = compact_loop (take n str) (replicate 16 0, map decimal0 [0..<16], 0)"
  have d: "displayText pat0 decimal0 str rightjustify s =
    (case r of Inl e \<Rightarrow> Inl e
     | Inr (trimStr, decimal, y) \<Rightarrow>
         (let y = (if y > uint (digits s) then uint (digits s) else y)
          in render_loop pat0 rightjustify trimStr decimal y [0..<nat y] s))"
    unfolding displayText_def r_def n_def Let_def ..
  show ?thesis
  proof (cases r)
    case (Inl e)
    with assms d show ?thesis by simp
  next
    case (Inr p)
    obtain trimStr decimal y where p: "p = (trimStr, decimal, y)"
      by (cases p)
    from assms have "render_loop pat0 rightjustify trimStr decimal
        (if y > uint (digits s) then uint (digits s) else y)
        [0..<nat (if y > uint (digits s) then uint (digits s) else y)] s = Inr s'"
      unfolding d Inr p by (simp add: Let_def del: upt.simps)
    then show ?thesis
      by (rule render_loop_Inr)
  qed
qed

subsection \<open>displayText and the specification's two passes\<close>

lemma compact_loop_refines:
  assumes "slots_in trimStr decimal y slots"
    and "length slots + length cs \<le> 16"
    and "slots \<noteq> [] \<or> cs = [] \<or> hd cs \<noteq> 0x2E"
  shows "\<exists>trimStr' decimal'.
      compact_loop cs (trimStr, decimal, y) =
        Inr (trimStr', decimal', int (length (compact_spec cs slots)))
      \<and> slots_in trimStr' decimal' (int (length (compact_spec cs slots))) (compact_spec cs slots)"
  using assms
proof (induction cs arbitrary: trimStr decimal y slots)
  case Nil
  then show ?case by (simp add: slots_in_def)
next
  case (Cons c cs)
  let ?n = "length slots"
  from Cons.prems(1) have y: "y = int ?n" and lt: "length trimStr = 16" and ld: "length decimal = 16"
    and nth: "\<And>i. i < ?n \<Longrightarrow> trimStr ! i = fst (slots ! i) \<and> decimal ! i = snd (slots ! i)"
    by (simp_all add: slots_in_def)
  from Cons.prems(2) have n16: "?n < 16" by simp
  show ?case
  proof (cases "c = 0x2E")
    case True
    with Cons.prems(3) have ne: "slots \<noteq> []" by simp
    then have n0: "0 < ?n" by simp
    let ?slots' = "butlast slots @ [(fst (last slots), True)]"
    have len': "length ?slots' = ?n" using ne by simp
    have idx: "nat (y - 1) = ?n - 1" using y by simp
    have inv': "slots_in trimStr (decimal[?n - 1 := True]) y ?slots'"
      unfolding slots_in_def
    proof (intro conjI allI impI)
      show "y = int (length ?slots')" using y len' by simp
      show "length trimStr = 16" by (rule lt)
      show "length (decimal[?n - 1 := True]) = 16" using ld by simp
    next
      fix i assume "i < length ?slots'"
      then have i: "i < ?n" using len' by simp
      show "trimStr ! i = fst (?slots' ! i)"
        using i nth [OF i] ne
        by (cases "i = ?n - 1") (auto simp add: nth_append nth_butlast last_conv_nth)
      show "decimal[?n - 1 := True] ! i = snd (?slots' ! i)"
        using i nth [OF i] ne ld n16
        by (cases "i = ?n - 1") (auto simp add: nth_append nth_butlast)
    qed
    have "length ?slots' + length cs \<le> 16" using Cons.prems(2) len' by simp
    moreover have "?slots' \<noteq> [] \<or> cs = [] \<or> hd cs \<noteq> 0x2E" by simp
    ultimately obtain t' d' where
      r: "compact_loop cs (trimStr, decimal[?n - 1 := True], y) = Inr (t', d', int (length (compact_spec cs ?slots')))"
      and i': "slots_in t' d' (int (length (compact_spec cs ?slots'))) (compact_spec cs ?slots')"
      using Cons.IH [OF inv'] by blast
    have step: "compact_loop (c # cs) (trimStr, decimal, y) = compact_loop cs (trimStr, decimal[?n - 1 := True], y)"
      using True y n0 n16 idx by simp
    have spec: "compact_spec (c # cs) slots = compact_spec cs ?slots'"
      using True ne by simp
    show ?thesis
      unfolding step spec using r i' by blast
  next
    case False
    let ?slots' = "slots @ [(c, False)]"
    have idx: "nat y = ?n" using y by simp
    have inv': "slots_in (trimStr[?n := c]) (decimal[?n := False]) (y + 1) ?slots'"
      unfolding slots_in_def
    proof (intro conjI allI impI)
      show "y + 1 = int (length ?slots')" using y by simp
      show "length (trimStr[?n := c]) = 16" using lt by simp
      show "length (decimal[?n := False]) = 16" using ld by simp
    next
      fix i assume "i < length ?slots'"
      then have i: "i < ?n \<or> i = ?n" by auto
      show "trimStr[?n := c] ! i = fst (?slots' ! i)"
        using i nth lt n16 by (auto simp add: nth_append)
      show "decimal[?n := False] ! i = snd (?slots' ! i)"
        using i nth ld n16 by (auto simp add: nth_append)
    qed
    have "length ?slots' + length cs \<le> 16" using Cons.prems(2) by simp
    moreover have "?slots' \<noteq> [] \<or> cs = [] \<or> hd cs \<noteq> 0x2E" by simp
    ultimately obtain t' d' where
      r: "compact_loop cs (trimStr[?n := c], decimal[?n := False], y + 1) = Inr (t', d', int (length (compact_spec cs ?slots')))"
      and i': "slots_in t' d' (int (length (compact_spec cs ?slots'))) (compact_spec cs ?slots')"
      using Cons.IH [OF inv'] by blast
    have step: "compact_loop (c # cs) (trimStr, decimal, y) = compact_loop cs (trimStr[?n := c], decimal[?n := False], y + 1)"
      using False y n16 idx by simp
    have spec: "compact_spec (c # cs) slots = compact_spec cs ?slots'"
      using False by simp
    show ?thesis
      unfolding step spec using r i' by blast
  qed
qed

lemma length_compact_spec: "length (compact_spec cs slots) \<le> length slots + length cs"
proof (induction cs arbitrary: slots)
  case Nil
  then show ?case by simp
next
  case (Cons c cs)
  show ?case
  proof (cases "c = 0x2E")
    case True
    have "length (if slots = [] then [] else butlast slots @ [(fst (last slots), True)]) = length slots"
      by simp
    with Cons.IH [of "if slots = [] then [] else butlast slots @ [(fst (last slots), True)]"] True
    show ?thesis by simp
  next
    case False
    with Cons.IH [of "slots @ [(c, False)]"] show ?thesis by simp
  qed
qed

lemma render_loop_refines:
  assumes "\<forall>x\<in>set xs. x < 16 \<and> trimStr ! x = fst (slots ! x) \<and> decimal ! x = snd (slots ! x)"
    and "y = int slotCount" "slotCount \<le> digitCount" "unat (digits s) = digitCount"
  shows "render_loop pat0 rj trimStr decimal y xs s =
    write_slots pat0 (\<lambda>i. if rj then digitCount - slotCount + i else i) slots xs s"
  using assms
proof (induction xs arbitrary: s)
  case Nil
  then show ?case by simp
next
  case (Cons x xs)
  let ?target = "\<lambda>i. if rj then digitCount - slotCount + i else i"
  from Cons.prems(1) have x: "x < 16" "trimStr ! x = fst (slots ! x)" "decimal ! x = snd (slots ! x)"
    by simp_all
  have "uint (digits s) = int digitCount"
    using Cons.prems(4) by (simp only: uint_nat)
  then have "uint (digits s) - y + int x = int (digitCount - slotCount + x)"
    using Cons.prems(2,3) by simp
  then have r: "(of_int (uint (digits s) - y + int x) :: byte) = of_nat (digitCount - slotCount + x)"
    by (simp only: of_int_of_nat_eq)
  have call: "(if \<not> rj then displayChar (pat0 x) (of_nat x) (trimStr ! x) (decimal ! x) s
       else displayChar (pat0 x) (of_int (uint (digits s) - y + int x)) (trimStr ! x) (decimal ! x) s)
     = displayChar (pat0 x) (of_nat (?target x)) (fst (slots ! x)) (snd (slots ! x)) s"
    unfolding r x by simp
  show ?case
  proof (cases "displayChar (pat0 x) (of_nat (?target x)) (fst (slots ! x)) (snd (slots ! x)) s")
    case (Inl e)
    then show ?thesis
      using x(1) call by simp
  next
    case (Inr s1)
    then have "unat (digits s1) = digitCount"
      using Cons.prems(4) by (simp add: displayChar_digits)
    with Cons.prems have "render_loop pat0 rj trimStr decimal y xs s1 = write_slots pat0 ?target slots xs s1"
      by (intro Cons.IH) simp_all
    then show ?thesis
      using x(1) call Inr by simp
  qed
qed

lemma take_takeWhile_prefix:
  "n \<le> length (takeWhile P xs) \<Longrightarrow> take n xs = take n (takeWhile P xs)"
proof -
  assume n: "n \<le> length (takeWhile P xs)"
  have "take n xs = take n (takeWhile P xs @ dropWhile P xs)"
    by simp
  also have "\<dots> = take n (takeWhile P xs)"
    using n by (simp del: takeWhile_dropWhile_id)
  finally show ?thesis .
qed

text \<open>
  For every string that does not begin with \<open>'.'\<close>, \<^verbatim>\<open>displayText\<close> is the
  specification's procedure: cap at 16 characters, compact the dots onto the slot
  before them, cap the slots at the digit count, write slot \<open>i\<close> to digit \<open>i\<close> or to
  digit \<open>digitCount - slotCount + i\<close>.
\<close>

lemma displayText_refines_spec:
  assumes "str = [] \<or> hd str \<noteq> 0x2E"
  shows "displayText pat0 decimal0 str rightjustify s = displayText_spec pat0 str rightjustify s"
proof -
  define capped where "capped = take 16 (takeWhile (\<lambda>c. c \<noteq> 0) str)"
  define n where "n = (if strlen str > 16 then 16 else strlen str)"
  have cap: "take n str = capped"
  proof (cases "strlen str > 16")
    case True
    then have "n = 16" "16 \<le> length (takeWhile (\<lambda>c. c \<noteq> 0) str)"
      by (simp_all add: n_def strlen_def)
    then show ?thesis
      unfolding capped_def by (simp only: take_takeWhile_prefix)
  next
    case False
    then have n: "n = length (takeWhile (\<lambda>c. c \<noteq> 0) str)" and le: "length (takeWhile (\<lambda>c. c \<noteq> 0) str) \<le> 16"
      by (simp_all add: n_def strlen_def)
    have "take n str = take n (takeWhile (\<lambda>c. c \<noteq> 0) str)"
      unfolding n by (rule take_takeWhile_prefix) simp
    also have "\<dots> = takeWhile (\<lambda>c. c \<noteq> 0) str"
      unfolding n by simp
    also have "\<dots> = capped"
      unfolding capped_def using le by simp
    finally show ?thesis .
  qed
  have hd: "capped = [] \<or> hd capped \<noteq> 0x2E"
    using assms unfolding capped_def by (cases str) auto
  have len: "length capped \<le> 16"
    unfolding capped_def by simp
  define all_slots where "all_slots = compact_spec capped []"
  have init: "slots_in (replicate 16 0) (map decimal0 [0..<16]) 0 []"
    by (simp add: slots_in_def)
  have "length [] + length capped \<le> 16" "[] \<noteq> [] \<or> capped = [] \<or> hd capped \<noteq> 0x2E"
    using len hd by simp_all
  from compact_loop_refines [OF init this]
  obtain trimStr decimal where
    p1: "compact_loop capped (replicate 16 0, map decimal0 [0..<16], 0) =
           Inr (trimStr, decimal, int (length all_slots))"
    and inv: "slots_in trimStr decimal (int (length all_slots)) all_slots"
    unfolding all_slots_def by auto
  define digitCount where "digitCount = unat (digits s)"
  define slots where "slots = take digitCount all_slots"
  define slotCount where "slotCount = length slots"
  define y where "y = (if int (length all_slots) > uint (digits s) then uint (digits s) else int (length all_slots))"
  have ud: "uint (digits s) = int digitCount"
    unfolding digitCount_def by (simp only: uint_nat)
  have y: "y = int slotCount"
    unfolding y_def slotCount_def slots_def ud by (simp add: min_def)
  have sc: "slotCount \<le> digitCount" "slotCount \<le> length all_slots"
    unfolding slotCount_def slots_def by simp_all
  from inv have nth: "\<And>i. i < length all_slots \<Longrightarrow>
      trimStr ! i = fst (all_slots ! i) \<and> decimal ! i = snd (all_slots ! i)"
    by (simp add: slots_in_def)
  have l16: "length all_slots \<le> 16"
    using length_compact_spec [of capped "[]"] len unfolding all_slots_def by simp
  have pre: "\<forall>x\<in>set [0..<slotCount]. x < 16 \<and> trimStr ! x = fst (slots ! x) \<and> decimal ! x = snd (slots ! x)"
  proof
    fix x assume "x \<in> set [0..<slotCount]"
    then have x: "x < slotCount" by simp
    with sc l16 have "x < 16" "x < length all_slots" "x < digitCount" by simp_all
    with nth [of x] show "x < 16 \<and> trimStr ! x = fst (slots ! x) \<and> decimal ! x = snd (slots ! x)"
      unfolding slots_def by simp
  qed
  have "displayText pat0 decimal0 str rightjustify s =
      render_loop pat0 rightjustify trimStr decimal y [0..<nat y] s"
    unfolding displayText_def n_def [symmetric] Let_def cap p1
    by (simp add: y_def del: upt.simps replicate.simps)
  also have "\<dots> = render_loop pat0 rightjustify trimStr decimal y [0..<slotCount] s"
    unfolding y by simp
  also have "\<dots> = write_slots pat0 (\<lambda>i. if rightjustify then digitCount - slotCount + i else i)
      slots [0..<slotCount] s"
    by (rule render_loop_refines [OF pre y sc(1) digitCount_def [symmetric]])
  also have "\<dots> = displayText_spec pat0 str rightjustify s"
    unfolding displayText_spec_def Let_def capped_def [symmetric] all_slots_def [symmetric]
      digitCount_def [symmetric] slots_def [symmetric] slotCount_def [symmetric] ..
  finally show ?thesis .
qed

lemma write_slots_returns:
  assumes "\<forall>i\<in>set xs. target i < 8"
  shows "\<exists>s'. write_slots pat0 target slots xs s = Inr s'"
  using assms
proof (induction xs arbitrary: s)
  case Nil
  then show ?case by simp
next
  case (Cons i xs)
  then have "target i < 8" by simp
  from displayChar_in_range [OF this]
  obtain s1 where "displayChar (pat0 i) (of_nat (target i)) (fst (slots ! i)) (snd (slots ! i)) s = Inr s1"
    by blast
  moreover from Cons obtain s' where "write_slots pat0 target slots xs s1 = Inr s'"
    by auto
  ultimately show ?case by simp
qed

lemma displayText_returns:
  assumes "str = [] \<or> hd str \<noteq> 0x2E" "digits s \<le> 8"
  shows "\<exists>s'. displayText pat0 decimal0 str rightjustify s = Inr s'"
proof -
  from assms(2) have "unat (digits s) \<le> unat (8::byte)"
    by (simp only: word_le_nat_alt)
  then have d8: "unat (digits s) \<le> 8" by simp
  define slots where "slots = take (unat (digits s)) (compact_spec (take 16 (takeWhile (\<lambda>c. c \<noteq> 0) str)) [])"
  have sc: "length slots \<le> unat (digits s)"
    unfolding slots_def by simp
  have "\<forall>i\<in>set [0..<length slots].
      (if rightjustify then unat (digits s) - length slots + i else i) < 8"
    using sc d8 by auto
  from write_slots_returns [OF this]
  have "\<exists>s'. displayText_spec pat0 str rightjustify s = Inr s'"
    unfolding displayText_spec_def Let_def slots_def [symmetric] .
  then show ?thesis
    by (simp only: displayText_refines_spec [OF assms(1)])
qed

text \<open>
  The example of the specification: \<open>"12345678"\<close>, left-justified, on four digits
  writes \<open>1234\<close> to the digits 0 to 3 and nothing else.
\<close>

lemma displayText_12345678:
  "displayText (\<lambda>i. 0) (\<lambda>i. False) [0x31, 0x32, 0x33, 0x34, 0x35, 0x36, 0x37, 0x38] False
     \<lparr>dinPin = 11, clkPin = 13, csPin = 10, digits = 4, pos = 0, autoscrolling = False,
       justify = False, buf = [0, 0, 0, 0, 0, 0, 0, 0], spi = []\<rparr>
   = Inr \<lparr>dinPin = 11, clkPin = 13, csPin = 10, digits = 4, pos = 0, autoscrolling = False,
       justify = False, buf = [0x30, 0x6D, 0x79, 0x33, 0, 0, 0, 0],
       spi = [(1, 0x30), (2, 0x6D), (3, 0x79), (4, 0x33)]\<rparr>"
  by code_simp

text \<open>
  C6. The claim: for every input string \<^verbatim>\<open>displayText\<close> caps, compacts and writes
  the slots as the specification says. For the string \<open>".5"\<close> the specification's
  procedure drops the dot and writes \<open>5\<close> to digit 0; the source stops being defined
  at \<^verbatim>\<open>decimal[-1]\<close> (the defect of C3). For every other string the two agree
  (\<open>displayText_refines_spec\<close>).
\<close>

theorem displayText_leading_dot_differs_from_spec:
  "displayText (\<lambda>i. 0) (\<lambda>i. False) [0x2E, 0x35] False
     \<lparr>dinPin = 11, clkPin = 13, csPin = 10, digits = 4, pos = 0, autoscrolling = False,
       justify = False, buf = [0, 0, 0, 0, 0, 0, 0, 0], spi = []\<rparr>
   = Inl (DecimalIndex (- 1))
   \<and> displayText_spec (\<lambda>i. 0) [0x2E, 0x35] False
     \<lparr>dinPin = 11, clkPin = 13, csPin = 10, digits = 4, pos = 0, autoscrolling = False,
       justify = False, buf = [0, 0, 0, 0, 0, 0, 0, 0], spi = []\<rparr>
   = Inr \<lparr>dinPin = 11, clkPin = 13, csPin = 10, digits = 4, pos = 0, autoscrolling = False,
       justify = False, buf = [0x5B, 0, 0, 0, 0, 0, 0, 0], spi = [(1, 0x5B)]\<rparr>"
  by code_simp

text \<open>
  C10. For every input string and justification, a call of \<^verbatim>\<open>displayText\<close> that
  returns leaves the cursor and the autoscroll flag as they were: the new object
  differs from the old one in the entries of \<open>buf\<close> and in the frames sent only, and
  the frames it has added all go to digit registers (opcodes 1 to 8). The call
  returns for every string that does not begin with \<open>'.'\<close> when the digit count is
  at most 8.
\<close>

theorem displayText_frame:
  "(displayText pat0 decimal0 str rightjustify s = Inr s' \<longrightarrow>
      pos s' = pos s \<and> autoscrolling s' = autoscrolling s \<and> digits s' = digits s
      \<and> length (buf s') = length (buf s)
      \<and> (\<exists>frames. s' = s\<lparr>buf := buf s', spi := spi s @ frames\<rparr>
            \<and> list_all (\<lambda>f. digit_register (fst f)) frames))
   \<and> ((str = [] \<or> hd str \<noteq> 0x2E) \<and> digits s \<le> 8 \<longrightarrow>
      (\<exists>s''. displayText pat0 decimal0 str rightjustify s = Inr s''))"
proof (intro conjI impI)
  assume r: "displayText pat0 decimal0 str rightjustify s = Inr s'"
  from displayText_Inr [OF r] obtain b frames where
    e: "s' = s\<lparr>buf := b, spi := spi s @ frames\<rparr>" and l: "length b = length (buf s)"
    and f: "list_all (\<lambda>f. digit_register (fst f)) frames"
    by blast
  from e show "pos s' = pos s" "autoscrolling s' = autoscrolling s" "digits s' = digits s"
    by simp_all
  from e l show "length (buf s') = length (buf s)"
    by simp
  from e have "s' = s\<lparr>buf := buf s', spi := spi s @ frames\<rparr>"
    by simp
  with f show "\<exists>frames. s' = s\<lparr>buf := buf s', spi := spi s @ frames\<rparr>
      \<and> list_all (\<lambda>f. digit_register (fst f)) frames"
    by blast
next
  assume "(str = [] \<or> hd str \<noteq> 0x2E) \<and> digits s \<le> 8"
  then show "\<exists>s''. displayText pat0 decimal0 str rightjustify s = Inr s''"
    using displayText_returns by blast
qed

theorem displayText_frame_witness:
  "displayText (\<lambda>i. 0) (\<lambda>i. False) [0x31, 0x2E, 0x35] True
     \<lparr>dinPin = 11, clkPin = 13, csPin = 10, digits = 4, pos = 2, autoscrolling = True,
       justify = False, buf = [0x30, 0x6D, 0, 0, 0, 0, 0, 0], spi = []\<rparr>
   = Inr \<lparr>dinPin = 11, clkPin = 13, csPin = 10, digits = 4, pos = 2, autoscrolling = True,
       justify = False, buf = [0x30, 0x6D, 0xB0, 0x5B, 0, 0, 0, 0],
       spi = [(3, 0xB0), (4, 0x5B)]\<rparr>
   \<and> pos \<lparr>dinPin = 11, clkPin = 13, csPin = 10, digits = 4, pos = 2, autoscrolling = True,
       justify = False, buf = [0x30, 0x6D, 0xB0, 0x5B, 0, 0, 0, 0],
       spi = [(3, 0xB0), (4, 0x5B)]\<rparr> = 2
   \<and> autoscrolling \<lparr>dinPin = 11, clkPin = 13, csPin = 10, digits = 4, pos = 2, autoscrolling = True,
       justify = False, buf = [0x30, 0x6D, 0xB0, 0x5B, 0, 0, 0, 0],
       spi = [(3, 0xB0), (4, 0x5B)]\<rparr>"
proof -
  have e: "displayText (\<lambda>i. 0) (\<lambda>i. False) [0x31, 0x2E, 0x35] True
     \<lparr>dinPin = 11, clkPin = 13, csPin = 10, digits = 4, pos = 2, autoscrolling = True,
       justify = False, buf = [0x30, 0x6D, 0, 0, 0, 0, 0, 0], spi = []\<rparr>
   = Inr \<lparr>dinPin = 11, clkPin = 13, csPin = 10, digits = 4, pos = 2, autoscrolling = True,
       justify = False, buf = [0x30, 0x6D, 0xB0, 0x5B, 0, 0, 0, 0],
       spi = [(3, 0xB0), (4, 0x5B)]\<rparr>"
    by code_simp
  from displayText_frame [THEN conjunct1, rule_format, OF e] e show ?thesis
    by simp
qed

section \<open>The buffer mirrors the digit registers\<close>

lemma last_sent_append:
  "last_sent (frames @ [(r, d)]) r' = (if r' = r then Some d else last_sent frames r')"
  by (simp add: last_sent_def)

lemma mirror_iff:
  "mirror s = (\<forall>i<8. \<forall>d. last_sent (spi s) (of_nat (i + 1)) = Some d \<longrightarrow> buf s ! i = d)"
  by (auto simp add: mirror_def list_all_iff split: option.splits)

lemma mirror_cong:
  assumes "buf s' = buf s" "spi s' = spi s"
  shows "mirror s' = mirror s"
  unfolding mirror_def assms ..

lemma mirror_digit_write:
  assumes "length (buf s) = 8" "mirror s" "i < 8"
  shows "mirror (s\<lparr>buf := (buf s)[i := v], spi := spi s @ [(of_nat (i + 1), v)]\<rparr>)"
  unfolding mirror_iff
proof (intro allI impI)
  fix j d
  assume j: "j < 8"
    and sent: "last_sent (spi (s\<lparr>buf := (buf s)[i := v], spi := spi s @ [(of_nat (i + 1), v)]\<rparr>))
                 (of_nat (j + 1)) = Some d"
  show "buf (s\<lparr>buf := (buf s)[i := v], spi := spi s @ [(of_nat (i + 1), v)]\<rparr>) ! j = d"
  proof (cases "j = i")
    case True
    with sent assms show ?thesis
      by (simp add: last_sent_append)
  next
    case False
    then have "(of_nat (j + 1) :: byte) \<noteq> of_nat (i + 1)"
      using digit_reg_inj [OF j assms(3)] by blast
    with sent have "last_sent (spi s) (of_nat (j + 1)) = Some d"
      by (simp add: last_sent_append)
    with assms(2) j have "buf s ! j = d"
      unfolding mirror_iff by blast
    with False show ?thesis by simp
  qed
qed

lemma mirror_other_write:
  assumes "mirror s" "8 < unat r"
  shows "mirror (writeSPI r d s)"
  unfolding mirror_iff
proof (intro allI impI)
  fix j d'
  assume j: "j < 8" and sent: "last_sent (spi (writeSPI r d s)) (of_nat (j + 1)) = Some d'"
  have "unat (of_nat (j + 1) :: byte) \<noteq> unat r"
    unfolding unat_digit_reg [OF j] using j assms(2) by simp
  then have "(of_nat (j + 1) :: byte) \<noteq> r"
    by auto
  with sent have "last_sent (spi s) (of_nat (j + 1)) = Some d'"
    by (simp add: last_sent_append)
  with assms(1) j show "buf (writeSPI r d s) ! j = d'"
    unfolding mirror_iff by simp
qed

lemma clear_loop_mirror:
  assumes "\<forall>i\<in>set ns. i < 8" "length (buf s) = 8" "mirror s"
  shows "mirror (clear_loop ns s)"
  using assms
proof (induction ns arbitrary: s)
  case Nil
  then show ?case by simp
next
  case (Cons i ns)
  then have i: "i < 8" by simp
  have e: "writeSPI (of_nat (i + 1)) 0x00 (s\<lparr>buf := (buf s)[i := 0x00]\<rparr>)
      = s\<lparr>buf := (buf s)[i := 0], spi := spi s @ [(of_nat (i + 1), 0)]\<rparr>"
    by (simp add: writeSPI_def)
  have "mirror (s\<lparr>buf := (buf s)[i := 0], spi := spi s @ [(of_nat (i + 1), 0)]\<rparr>)"
    by (rule mirror_digit_write [OF Cons.prems(2,3) i])
  moreover have "length (buf (s\<lparr>buf := (buf s)[i := 0], spi := spi s @ [(of_nat (i + 1), 0)]\<rparr>)) = 8"
    using Cons.prems(2) by simp
  ultimately show ?case
    using Cons.IH Cons.prems(1) unfolding clear_loop.simps e by simp
qed

lemma clear_mirror:
  assumes "length (buf s) = 8" "mirror s"
  shows "mirror (clear s)"
proof -
  have "mirror (clear_loop [0..<8] s)"
    by (rule clear_loop_mirror [OF _ assms]) simp
  then show ?thesis
    unfolding clear_def by (simp add: mirror_cong [of "(clear_loop [0..<8] s)\<lparr>pos := 0\<rparr>" "clear_loop [0..<8] s"] del: upt.simps)
qed

lemma begin_mirror:
  assumes "length (buf s) = 8" "mirror s"
  shows "mirror (begin_op n s)" "length (buf (begin_op n s)) = 8"
proof -
  let ?s1 = "writeSPI MAX7219_REG_DECODE 0x00 (writeSPI MAX7219_REG_SCAN_LIMIT (if n < 4 then 4 else n) s)"
  have "mirror ?s1"
    by (intro mirror_other_write assms) (simp_all add: MAX7219_REG_DECODE_def MAX7219_REG_SCAN_LIMIT_def)
  moreover have "length (buf ?s1) = 8"
    using assms(1) by simp
  ultimately have "mirror (clear ?s1)"
    using clear_mirror by blast
  then have "mirror (display (brightness INTENSITY_MAX (noTestMode (clear ?s1))))"
    unfolding display_def brightness_def noTestMode_def
    by (intro mirror_other_write)
      (simp_all add: MAX7219_REG_SHUTDOWN_def MAX7219_REG_INTENSITY_def MAX7219_REG_DISPLAY_TEST_def)
  then show "mirror (begin_op n s)"
    by (simp add: begin_op_def Let_def)
  show "length (buf (begin_op n s)) = 8"
    using assms(1) by (simp add: begin_op_def Let_def display_def brightness_def noTestMode_def)
qed

lemma displayChar_mirror:
  assumes "length (buf s) = 8" "mirror s" "displayChar pat0 digit v dp s = Inr s'"
  shows "length (buf s') = 8 \<and> mirror s'"
proof (cases "0 \<le> sint digit \<and> sint digit < 8")
  case True
  define k where "k = nat (sint digit)"
  from True have r: "0 \<le> sint digit" "sint digit < 8"
    by simp_all
  then have k: "k < 8"
    unfolding k_def by arith
  from r have d: "digit = of_nat k"
    unfolding k_def by (rule digit_of_sint)
  from assms(3) have "s' = s\<lparr>buf := (buf s)[k := lookup pat0 v dp],
      spi := spi s @ [(of_nat (k + 1), lookup pat0 v dp)]\<rparr>"
    unfolding d displayChar_in_range [OF k] by simp
  with mirror_digit_write [OF assms(1,2) k] assms(1) show ?thesis
    by simp
next
  case False
  with assms(3) show ?thesis
    by (simp add: displayChar_def Let_def)
qed

lemma scroll_loop_mirror:
  assumes "length (buf s) = 8" "mirror s" "scroll_loop ns s = Inr s'"
  shows "length (buf s') = 8 \<and> mirror s'"
  using assms
proof (induction ns arbitrary: s)
  case Nil
  then show ?case by simp
next
  case (Cons i ns)
  let ?s1 = "writeSPI (of_nat (i + 1)) (buf s ! (i + 1)) (s\<lparr>buf := (buf s)[i := buf s ! (i + 1)]\<rparr>)"
  from Cons.prems(3) have i: "i + 1 < 8"
    by (cases "i + 1 < 8") simp_all
  with Cons.prems(3) have r: "scroll_loop ns ?s1 = Inr s'"
    by simp
  have e: "?s1 = s\<lparr>buf := (buf s)[i := buf s ! (i + 1)], spi := spi s @ [(of_nat (i + 1), buf s ! (i + 1))]\<rparr>"
    by (simp add: writeSPI_def)
  from i have "i < 8" by simp
  from mirror_digit_write [OF Cons.prems(1,2) this] have "mirror ?s1"
    unfolding e .
  moreover have "length (buf ?s1) = 8"
    using Cons.prems(1) by simp
  ultimately show ?case
    using Cons.IH r by blast
qed

lemma write_mirror:
  assumes "length (buf s) = 8" "mirror s" "write_op pat0 ch s = Inr (n, s')"
  shows "length (buf s') = 8 \<and> mirror s'"
proof (cases "ch = 0x2E")
  case True
  define p where "p = (if pos s > 0 then pos s - 1 else 0)"
  from assms(3) True have p8: "unat p < 8"
    unfolding write_op_def p_def [symmetric] by (cases "unat p < 8") (simp_all add: Let_def)
  have w: "p + 1 = of_nat (unat p + 1)"
    by simp
  from assms(3) True p8 have "s' = s\<lparr>buf := (buf s)[unat p := buf s ! unat p OR 0x80],
      spi := spi s @ [(p + 1, buf s ! unat p OR 0x80)]\<rparr>"
    unfolding write_op_def p_def [symmetric] by (simp add: Let_def writeSPI_def)
  then have "s' = s\<lparr>buf := (buf s)[unat p := buf s ! unat p OR 0x80],
      spi := spi s @ [(of_nat (unat p + 1), buf s ! unat p OR 0x80)]\<rparr>"
    by (simp only: w)
  with mirror_digit_write [OF assms(1,2) p8] assms(1) show ?thesis
    by simp
next
  case False
  show ?thesis
  proof (cases "autoscrolling s \<and> pos s = digits s")
    case True
    with False assms(3) obtain s1 where
      l: "scroll_loop [0..<nat (uint (digits s) - 1)] s = Inr s1"
      and d: "displayChar pat0 (digits s1 - 1) ch False s1 = Inr s'"
      unfolding write_op_def by (auto split: sum.splits simp del: upt.simps)
    from scroll_loop_mirror [OF assms(1,2) l] have "length (buf s1) = 8" "mirror s1"
      by simp_all
    then show ?thesis
      using d by (rule displayChar_mirror)
  next
    case no: False
    with False assms(3) have d: "displayChar pat0 (pos s) ch False (s\<lparr>pos := pos s + 1\<rparr>) = Inr s'"
      unfolding write_op_def by (auto split: sum.splits)
    have "length (buf (s\<lparr>pos := pos s + 1\<rparr>)) = 8"
      using assms(1) by simp
    moreover have "mirror (s\<lparr>pos := pos s + 1\<rparr>)"
      using assms(2) mirror_cong [of "s\<lparr>pos := pos s + 1\<rparr>" s] by simp
    ultimately show ?thesis
      using d by (rule displayChar_mirror)
  qed
qed

lemma render_loop_mirror:
  assumes "length (buf s) = 8" "mirror s" "render_loop pat0 rj trimStr decimal y xs s = Inr s'"
  shows "length (buf s') = 8 \<and> mirror s'"
  using assms
proof (induction xs arbitrary: s)
  case Nil
  then show ?case by simp
next
  case (Cons x xs)
  let ?call = "if \<not> rj then displayChar (pat0 x) (of_nat x) (trimStr ! x) (decimal ! x) s
         else displayChar (pat0 x) (of_int (uint (digits s) - y + int x)) (trimStr ! x) (decimal ! x) s"
  from Cons.prems(3) have x: "x < 16"
    by (cases "x < 16") simp_all
  show ?case
  proof (cases ?call)
    case (Inl e)
    with Cons.prems(3) x show ?thesis by simp
  next
    case (Inr s1)
    with Cons.prems(3) x have r: "render_loop pat0 rj trimStr decimal y xs s1 = Inr s'"
      by simp
    from Inr have "length (buf s1) = 8 \<and> mirror s1"
      using displayChar_mirror [OF Cons.prems(1,2)] by (cases rj) auto
    then show ?thesis
      using Cons.IH r by blast
  qed
qed

lemma displayText_mirror:
  assumes "length (buf s) = 8" "mirror s" "displayText pat0 decimal0 str rightjustify s = Inr s'"
  shows "length (buf s') = 8 \<and> mirror s'"
proof -
  define n where "n = (if strlen str > 16 then 16 else strlen str)"
  define r where "r = compact_loop (take n str) (replicate 16 0, map decimal0 [0..<16], 0)"
  have d: "displayText pat0 decimal0 str rightjustify s =
    (case r of Inl e \<Rightarrow> Inl e
     | Inr (trimStr, decimal, y) \<Rightarrow>
         (let y = (if y > uint (digits s) then uint (digits s) else y)
          in render_loop pat0 rightjustify trimStr decimal y [0..<nat y] s))"
    unfolding displayText_def r_def n_def Let_def ..
  show ?thesis
  proof (cases r)
    case (Inl e)
    with assms(3) d show ?thesis by simp
  next
    case (Inr p)
    obtain trimStr decimal y where p: "p = (trimStr, decimal, y)"
      by (cases p)
    from assms(3) have "render_loop pat0 rightjustify trimStr decimal
        (if y > uint (digits s) then uint (digits s) else y)
        [0..<nat (if y > uint (digits s) then uint (digits s) else y)] s = Inr s'"
      unfolding d Inr p by (simp add: Let_def del: upt.simps)
    with assms(1,2) show ?thesis
      by (rule render_loop_mirror)
  qed
qed

lemma perform_mirror:
  assumes "length (buf s) = 8" "mirror s" "perform c s = Inr s'"
  shows "length (buf s') = 8 \<and> mirror s'"
proof (cases c)
  case (Begin n)
  with assms begin_mirror [OF assms(1,2), of n] show ?thesis by simp
next
  case Clear
  with assms clear_mirror [OF assms(1,2)] show ?thesis by auto
next
  case (Brightness b)
  with assms mirror_other_write [OF assms(2), of MAX7219_REG_INTENSITY] show ?thesis
    by (auto simp add: brightness_def MAX7219_REG_INTENSITY_def)
next
  case Display
  with assms mirror_other_write [OF assms(2), of MAX7219_REG_SHUTDOWN] show ?thesis
    by (auto simp add: display_def MAX7219_REG_SHUTDOWN_def)
next
  case NoDisplay
  with assms mirror_other_write [OF assms(2), of MAX7219_REG_SHUTDOWN] show ?thesis
    by (auto simp add: noDisplay_def MAX7219_REG_SHUTDOWN_def)
next
  case Home
  with assms mirror_cong [of "home s" s] show ?thesis
    by (auto simp add: home_def)
next
  case (SetCursor x y)
  with assms mirror_cong [of "setCursor x y s" s] show ?thesis
    by (auto simp add: setCursor_def)
next
  case AutoScroll
  with assms mirror_cong [of "autoScroll s" s] show ?thesis
    by (auto simp add: autoScroll_def)
next
  case NoAutoScroll
  with assms mirror_cong [of "noAutoScroll s" s] show ?thesis
    by (auto simp add: noAutoScroll_def)
next
  case (DisplayChar pat0 digit v dp)
  with assms displayChar_mirror [OF assms(1,2)] show ?thesis by simp
next
  case (DisplayText pat0 decimal0 str rj)
  with assms displayText_mirror [OF assms(1,2)] show ?thesis by simp
next
  case TestMode
  with assms mirror_other_write [OF assms(2), of MAX7219_REG_DISPLAY_TEST] show ?thesis
    by (auto simp add: testMode_def MAX7219_REG_DISPLAY_TEST_def)
next
  case NoTestMode
  with assms mirror_other_write [OF assms(2), of MAX7219_REG_DISPLAY_TEST] show ?thesis
    by (auto simp add: noTestMode_def MAX7219_REG_DISPLAY_TEST_def)
next
  case (Write pat0 ch)
  with assms(3) obtain n where "write_op pat0 ch s = Inr (n, s')"
    by (auto split: sum.splits)
  with assms(1,2) show ?thesis
    by (rule write_mirror)
qed

lemma run_mirror:
  assumes "length (buf s) = 8" "mirror s" "run calls s = Inr s'"
  shows "length (buf s') = 8 \<and> mirror s'"
  using assms
proof (induction calls arbitrary: s)
  case Nil
  then show ?case by simp
next
  case (Cons c calls)
  from Cons.prems(3) obtain s1 where p: "perform c s = Inr s1" and r: "run calls s1 = Inr s'"
    by (auto split: sum.splits)
  from perform_mirror [OF Cons.prems(1,2) p] have "length (buf s1) = 8" "mirror s1"
    by simp_all
  then show ?case
    using r by (rule Cons.IH)
qed

lemma constructor_mirror:
  "length (buf (SevSeg_MAX7219 din clk cs justify0 buf0)) = 8"
  "mirror (SevSeg_MAX7219 din clk cs justify0 buf0)"
  by (simp_all add: SevSeg_MAX7219_def mirror_iff last_sent_def)

text \<open>
  C9. After every sequence of calls on a new object that returns (no call of it
  leaves the eight entries of \<^verbatim>\<open>buf\<close> or otherwise faults), and so after every
  prefix of such a sequence, the buffer mirrors the digit registers: for every digit
  register \<open>i + 1\<close> that has been written, buffer entry \<open>i\<close> is the data byte most
  recently sent to it.
\<close>

theorem buffer_mirrors_registers:
  assumes "run calls (SevSeg_MAX7219 din clk cs justify0 buf0) = Inr s'"
    and "i < 8"
    and "last_sent (spi s') (of_nat (i + 1)) = Some d"
  shows "buf s' ! i = d"
proof -
  from run_mirror [OF constructor_mirror assms(1)] have "mirror s'"
    by simp
  with assms(2,3) show ?thesis
    unfolding mirror_iff by blast
qed

theorem buffer_mirrors_registers_witness:
  "run [Begin 4, Write 0 0x31, Write 0 0x2E, Write 0 0x32] (SevSeg_MAX7219 11 13 10 False (\<lambda>i. 0xFF))
   = Inr \<lparr>dinPin = 11, clkPin = 13, csPin = 10, digits = 4, pos = 2, autoscrolling = False,
       justify = False, buf = [0xB0, 0x6D, 0, 0, 0, 0, 0, 0],
       spi = [(0x0b, 4), (0x09, 0), (1, 0), (2, 0), (3, 0), (4, 0), (5, 0), (6, 0), (7, 0), (8, 0),
              (0x0f, 0), (0x0a, 0x0f), (0x0c, 1), (1, 0x30), (1, 0xB0), (2, 0x6D)]\<rparr>
   \<and> last_sent [(0x0b, 4), (0x09, 0), (1, 0), (2, 0), (3, 0), (4, 0), (5, 0), (6, 0), (7, 0), (8, 0),
              (0x0f, 0), (0x0a, 0x0f), (0x0c, 1), (1, 0x30), (1, 0xB0), (2, 0x6D)] 1 = Some 0xB0
   \<and> [0xB0, 0x6D, 0, 0, 0, 0, 0, 0 :: byte] ! 0 = 0xB0"
proof -
  let ?s' = "\<lparr>dinPin = 11, clkPin = 13, csPin = 10, digits = 4, pos = 2, autoscrolling = False,
       justify = False, buf = [0xB0, 0x6D, 0, 0, 0, 0, 0, 0],
       spi = [(0x0b, 4), (0x09, 0), (1, 0), (2, 0), (3, 0), (4, 0), (5, 0), (6, 0), (7, 0), (8, 0),
              (0x0f, 0), (0x0a, 0x0f), (0x0c, 1), (1, 0x30), (1, 0xB0), (2, 0x6D)]\<rparr>"
  have e: "run [Begin 4, Write 0 0x31, Write 0 0x2E, Write 0 0x32]
      (SevSeg_MAX7219 11 13 10 False (\<lambda>i. 0xFF)) = Inr ?s'"
    by code_simp
  have l: "last_sent (spi ?s') (of_nat (0 + 1)) = Some 0xB0"
    by code_simp
  have "(0::nat) < 8"
    by simp
  from buffer_mirrors_registers [OF e this l] have "buf ?s' ! 0 = 0xB0" .
  with e l show ?thesis
    by simp
qed

section \<open>The digit count of the objects that calls can reach\<close>

lemma scroll_loop_digits:
  assumes "scroll_loop ns s = Inr s'"
  shows "digits s' = digits s"
  using assms
proof (induction ns arbitrary: s)
  case Nil
  then show ?case by simp
next
  case (Cons i ns)
  from Cons.prems have i: "i + 1 < 8"
    by (cases "i + 1 < 8") simp_all
  with Cons.prems have
    "scroll_loop ns (writeSPI (of_nat (i + 1)) (buf s ! (i + 1)) (s\<lparr>buf := (buf s)[i := buf s ! (i + 1)]\<rparr>)) = Inr s'"
    by simp
  from Cons.IH [OF this] show ?case by simp
qed

lemma write_digits:
  assumes "write_op pat0 ch s = Inr (n, s')"
  shows "digits s' = digits s"
proof (cases "ch = 0x2E")
  case True
  with assms show ?thesis
    by (auto simp add: write_op_def Let_def split: if_splits)
next
  case False
  show ?thesis
  proof (cases "autoscrolling s \<and> pos s = digits s")
    case True
    with False assms obtain s1 where
      l: "scroll_loop [0..<nat (uint (digits s) - 1)] s = Inr s1"
      and d: "displayChar pat0 (digits s1 - 1) ch False s1 = Inr s'"
      unfolding write_op_def by (auto split: sum.splits simp del: upt.simps)
    from displayChar_digits [OF d] scroll_loop_digits [OF l] show ?thesis
      by simp
  next
    case no: False
    with False assms have "displayChar pat0 (pos s) ch False (s\<lparr>pos := pos s + 1\<rparr>) = Inr s'"
      unfolding write_op_def by (auto split: sum.splits)
    from displayChar_digits [OF this] show ?thesis
      by simp
  qed
qed

lemma perform_digits:
  assumes "perform c s = Inr s'"
  shows "digits s' = digits s"
proof (cases c)
  case (DisplayChar pat0 digit v dp)
  with assms show ?thesis by (simp add: displayChar_digits)
next
  case (DisplayText pat0 decimal0 str rj)
  with assms displayText_Inr [of pat0 decimal0 str rj s s'] show ?thesis by auto
next
  case (Write pat0 ch)
  with assms obtain n where "write_op pat0 ch s = Inr (n, s')"
    by (auto split: sum.splits)
  then show ?thesis by (rule write_digits)
qed (use assms in \<open>auto simp add: begin_digits brightness_def display_def noDisplay_def home_def
      setCursor_def autoScroll_def noAutoScroll_def testMode_def noTestMode_def\<close>)

lemma run_digits:
  assumes "run calls s = Inr s'"
  shows "digits s' = digits s"
  using assms
proof (induction calls arbitrary: s)
  case Nil
  then show ?case by simp
next
  case (Cons c calls)
  from Cons.prems obtain s1 where p: "perform c s = Inr s1" and r: "run calls s1 = Inr s'"
    by (auto split: sum.splits)
  from Cons.IH [OF r] perform_digits [OF p] show ?case by simp
qed

text \<open>
  No call assigns the member \<open>digits\<close>: every object that calls can reach has the
  digit count 4 of the constructor, and eight buffer entries.
\<close>

lemma reachable_digits:
  assumes "run calls (SevSeg_MAX7219 din clk cs justify0 buf0) = Inr s"
  shows "digits s = 4 \<and> length (buf s) = 8"
  using run_digits [OF assms] run_mirror [OF constructor_mirror assms]
  by (simp add: SevSeg_MAX7219_def)

end
